theory Spec2Isabelle
  imports Main "HOL-Library.Char_ord" "HOL-Library.List_Lexorder"
begin

section \<open>The grammar model\<close>

text \<open>
  The class \<^verbatim>\<open>GrammarProcessor\<close> of \<^verbatim>\<open>grammar_processor.py\<close> keeps four fields:
  \<^verbatim>\<open>productions\<close>, a \<^verbatim>\<open>defaultdict(list)\<close> from strings to lists of strings;
  \<^verbatim>\<open>terminals\<close> and \<^verbatim>\<open>non_terminals\<close>, sets of strings; and
  \<^verbatim>\<open>start_symbol\<close>, a string or \<^verbatim>\<open>None\<close>. A Python string is a \<open>string\<close>
  here and a character of it, which Python represents as a string of length one, is
  the singleton list \<open>[c]\<close>. The dictionary is a map; a key is present when the map
  is not \<open>None\<close> there. Characters are those of \<open>char\<close>; the proofs use
  only that the alphabet is finite, as the code points of Python are.
\<close>

datatype error = TypeError

record grammar =
  productions :: "string \<rightharpoonup> string list"
  terminals :: "string set"
  non_terminals :: "string set"
  start_symbol :: "string option"

text \<open>The state that \<^verbatim>\<open>__init__\<close> builds: nothing has been parsed yet.\<close>

definition init_grammar :: grammar where
  "init_grammar =
     \<lparr>productions = Map.empty, terminals = {}, non_terminals = {}, start_symbol = None\<rparr>"

text \<open>
  \<^verbatim>\<open>self.productions[key]\<close> on a \<^verbatim>\<open>defaultdict(list)\<close>: a present key gives its
  list; an absent key is first stored with a fresh empty list, which is then
  returned. The read therefore returns the list together with the dictionary as it is
  afterwards.
\<close>

definition productions_getitem :: "grammar \<Rightarrow> string \<Rightarrow> string list \<times> grammar" where
  "productions_getitem g key =
     (case productions g key of
        Some prods \<Rightarrow> (prods, g)
      | None \<Rightarrow> ([], g\<lparr>productions := (productions g)(key \<mapsto> [])\<rparr>))"

text \<open>
  \<^verbatim>\<open>_is_terminal_string\<close>: every character is in \<^verbatim>\<open>terminals\<close> or equals the
  empty string (which a character never does).
\<close>

definition is_terminal_string :: "grammar \<Rightarrow> string \<Rightarrow> bool" where
  "is_terminal_string g s = list_all (\<lambda>char. [char] \<in> terminals g \<or> [char] = []) s"

text \<open>
  \<^verbatim>\<open>_get_expansions\<close>: the loop over \<^verbatim>\<open>enumerate(current)\<close> is the recursion of
  \<open>expansions_scan\<close> over the characters still to be looked at, with their index
  \<open>i\<close>; at the first character in \<^verbatim>\<open>non_terminals\<close> the productions are read,
  each one is spliced into \<^verbatim>\<open>current[:i] + production + current[i+1:]\<close>, and the
  loop breaks.
\<close>

fun expansions_scan :: "grammar \<Rightarrow> string \<Rightarrow> nat \<Rightarrow> string \<Rightarrow> string list \<times> grammar" where
  "expansions_scan g current i [] = ([], g)"
| "expansions_scan g current i (char # rest) =
     (if [char] \<in> non_terminals g then
        (case productions_getitem g [char] of
           (prods, g') \<Rightarrow>
             (map (\<lambda>production. take i current @ production @ drop (i + 1) current) prods, g'))
      else expansions_scan g current (i + 1) rest)"

definition get_expansions :: "grammar \<Rightarrow> string \<Rightarrow> string list \<times> grammar" where
  "get_expansions g current = expansions_scan g current 0 current"

section \<open>The searches\<close>

text \<open>
  The three searches end their loop body with the same inner loop,
  \<^verbatim>\<open>for e in expansions: if e not in visited and <bound on e>: visited.add(e); queue.append(e)\<close>,
  which differs only in the bound: \<^verbatim>\<open>len(e) <= max_length * 2\<close> in
  \<^verbatim>\<open>generate_words\<close>, \<^verbatim>\<open>len(e) < 20\<close> in \<^verbatim>\<open>_can_produce_empty\<close> and none in
  \<^verbatim>\<open>_bfs_parse\<close>. The bound is the parameter \<open>admit\<close>.
\<close>

fun enqueue_unvisited ::
  "(string \<Rightarrow> bool) \<Rightarrow> string list \<Rightarrow> string list \<times> string set \<Rightarrow> string list \<times> string set" where
  "enqueue_unvisited admit [] (queue, visited) = (queue, visited)"
| "enqueue_unvisited admit (e # es) (queue, visited) =
     (if e \<notin> visited \<and> admit e
      then enqueue_unvisited admit es (queue @ [e], insert e visited)
      else enqueue_unvisited admit es (queue, visited))"

text \<open>
  Strings of bounded length are finitely many, and the inner loop moves each newly
  visited string out of any finite set that contains all admitted strings and into the
  queue. The three searches terminate by this count.
\<close>

lemma finite_strings_le: "finite {s::string. length s \<le> n}"
  using finite_lists_length_le[of "UNIV::char set" n] by simp

lemma finite_strings_int_le: "finite {s::string. int (length s) \<le> n}"
  by (rule finite_subset[OF _ finite_strings_le[of "nat n"]]) auto

lemma finite_strings_less: "finite {s::string. length s < n}"
  by (rule finite_subset[OF _ finite_strings_le[of n]]) auto

lemma enqueue_unvisited_measure:
  assumes "finite B" and "\<And>e. admit e \<Longrightarrow> e \<in> B"
  shows "enqueue_unvisited admit es (q, v) = (q', v') \<Longrightarrow>
         length q' + card (B - v') = length q + card (B - v)"
proof (induction es arbitrary: q v)
  case Nil
  then show ?case by simp
next
  case (Cons e es)
  show ?case
  proof (cases "e \<notin> v \<and> admit e")
    case True
    then have eB: "e \<in> B - v" using assms(2) by simp
    have fin: "finite (B - v)" using assms(1) by simp
    have "B - insert e v = (B - v) - {e}" by auto
    then have c: "card (B - insert e v) = card (B - v) - 1"
      using eB fin by (simp add: card_Diff_singleton)
    have pos: "0 < card (B - v)" using eB fin by (auto simp: card_gt_0_iff)
    from Cons.prems True have "enqueue_unvisited admit es (q @ [e], insert e v) = (q', v')"
      by simp
    from Cons.IH[OF this] c pos show ?thesis by simp
  next
    case False
    with Cons.prems have "enqueue_unvisited admit es (q, v) = (q', v')" by auto
    from Cons.IH[OF this] show ?thesis .
  qed
qed

subsection \<open>Generation\<close>

text \<open>
  The \<^verbatim>\<open>while queue and len(generated_words) < max_words\<close> loop of
  \<^verbatim>\<open>generate_words\<close>. The bounds are Python integers, so they are \<open>int\<close>. The
  loop returns the set of generated words and the grammar as the reads of
  \<^verbatim>\<open>productions\<close> left it.
\<close>

function generate_loop ::
  "grammar \<Rightarrow> int \<Rightarrow> int \<Rightarrow> string list \<Rightarrow> string set \<Rightarrow> string set \<Rightarrow> string set \<times> grammar" where
  "generate_loop g max_length max_words [] visited_strings generated_words =
     (generated_words, g)"
| "generate_loop g max_length max_words (current # queue) visited_strings generated_words =
     (if \<not> int (card generated_words) < max_words then (generated_words, g)
      else if is_terminal_string g current then
        generate_loop g max_length max_words queue visited_strings
          (if int (length current) \<le> max_length \<and> current \<noteq> []
           then insert current generated_words else generated_words)
      else if int (length current) > max_length then
        generate_loop g max_length max_words queue visited_strings generated_words
      else
        (case get_expansions g current of
           (expansions, g') \<Rightarrow>
             (case enqueue_unvisited (\<lambda>e. int (length e) \<le> max_length * 2) expansions
                     (queue, visited_strings) of
                (queue', visited') \<Rightarrow>
                  generate_loop g' max_length max_words queue' visited' generated_words)))"
  by pat_completeness auto

termination generate_loop
  apply (relation "measure (\<lambda>(g, max_length, max_words, queue, visited, words).
          length queue + card ({s. int (length s) \<le> max_length * 2} - visited))")
     apply simp_all
  subgoal premises prems for g max_length max_words current queue visited_strings
      generated_words expansions g' queue' visited'
  proof -
    have e: "enqueue_unvisited (\<lambda>e. int (length e) \<le> max_length * 2) expansions
               (queue, visited_strings) = (queue', visited')"
      by (rule sym) (rule prems)
    show ?thesis
      using enqueue_unvisited_measure[OF finite_strings_int_le[of "max_length * 2"] _ e]
      by (simp add: e)
  qed
  done

declare generate_loop.simps [simp del]

text \<open>
  \<^verbatim>\<open>generate_words\<close>: \<^verbatim>\<open>not self.start_symbol\<close> holds for \<^verbatim>\<open>None\<close> and for
  the empty string; otherwise the loop starts from the start symbol and the set of
  words is returned as a sorted list (Python compares strings lexicographically by
  code point, with a proper prefix first, which is the order of \<open>List_Lexorder\<close>
  over \<open>Char_ord\<close>).
\<close>

definition generate_words :: "grammar \<Rightarrow> int \<Rightarrow> int \<Rightarrow> string list \<times> grammar" where
  "generate_words g max_length max_words =
     (case start_symbol g of
        None \<Rightarrow> ([], g)
      | Some start \<Rightarrow>
          if start = [] then ([], g)
          else
            (case generate_loop g max_length max_words [start] {start} {} of
               (generated_words, g') \<Rightarrow> (sorted_list_of_set generated_words, g')))"

subsection \<open>Membership\<close>

text \<open>
  The loops of \<^verbatim>\<open>_can_produce_empty\<close> and \<^verbatim>\<open>_bfs_parse\<close> return the value of
  the function together with the local variables and the grammar as they are when the
  loop is left, so that properties of the queue, the visited set and the iteration
  count can be stated. Only \<^verbatim>\<open>_bfs_parse\<close> counts its iterations.
\<close>

record search_state =
  found :: bool
  queue_left :: "string list"
  visited_set :: "string set"
  grammar_after :: grammar

record bfs_state = search_state +
  iterations :: nat

text \<open>
  The loop of \<^verbatim>\<open>_can_produce_empty\<close>, entered with a start symbol that is a
  string. It has no iteration counter.
\<close>

function can_produce_empty_loop ::
  "grammar \<Rightarrow> string list \<Rightarrow> string set \<Rightarrow> search_state" where
  "can_produce_empty_loop g [] visited =
     \<lparr>found = False, queue_left = [], visited_set = visited, grammar_after = g\<rparr>"
| "can_produce_empty_loop g (current # queue) visited =
     (if current = [] then
        \<lparr>found = True, queue_left = queue, visited_set = visited, grammar_after = g\<rparr>
      else if is_terminal_string g current then can_produce_empty_loop g queue visited
      else
        (case get_expansions g current of
           (expansions, g') \<Rightarrow>
             (case enqueue_unvisited (\<lambda>exp. length exp < 20) expansions (queue, visited) of
                (queue', visited') \<Rightarrow> can_produce_empty_loop g' queue' visited')))"
  by pat_completeness auto

termination can_produce_empty_loop
  apply (relation "measure (\<lambda>(g, queue, visited).
          length queue + card ({s. length s < 20} - visited))")
    apply simp_all
  subgoal premises prems for g current queue visited expansions g' queue' visited'
  proof -
    have e: "enqueue_unvisited (\<lambda>exp. length exp < 20) expansions (queue, visited) =
             (queue', visited')"
      by (rule sym) (rule prems)
    show ?thesis
      using enqueue_unvisited_measure[OF finite_strings_less[of 20] _ e] by (simp add: e)
  qed
  done

declare can_produce_empty_loop.simps [simp del]

text \<open>
  \<^verbatim>\<open>_can_produce_empty\<close> puts \<^verbatim>\<open>self.start_symbol\<close> in the queue whatever it is.
  When it is \<^verbatim>\<open>None\<close>, the first iteration takes it out, finds it different from
  \<^verbatim>\<open>''\<close> and calls \<^verbatim>\<open>_is_terminal_string(None)\<close>, whose
  \<^verbatim>\<open>for char in s\<close> raises \<^verbatim>\<open>TypeError\<close>; nothing has been written by then.
\<close>

definition can_produce_empty :: "grammar \<Rightarrow> error + bool \<times> grammar" where
  "can_produce_empty g =
     (case start_symbol g of
        None \<Rightarrow> Inl TypeError
      | Some start \<Rightarrow>
          (let st = can_produce_empty_loop g [start] {start}
           in Inr (found st, grammar_after st)))"

text \<open>
  The loop of \<^verbatim>\<open>_bfs_parse\<close>: \<^verbatim>\<open>while queue and iterations < max_iterations\<close>,
  with \<^verbatim>\<open>max_iterations\<close> the local constant that the function sets to 10000.
\<close>

function bfs_loop ::
  "grammar \<Rightarrow> string \<Rightarrow> nat \<Rightarrow> nat \<Rightarrow> string list \<Rightarrow> string set \<Rightarrow> bfs_state" where
  "bfs_loop g target_word max_iterations its queue visited =
     (case queue of
        [] \<Rightarrow>
          \<lparr>found = False, queue_left = queue, visited_set = visited, grammar_after = g,
           iterations = its\<rparr>
      | current # queue' \<Rightarrow>
          if \<not> its < max_iterations then
            \<lparr>found = False, queue_left = queue, visited_set = visited, grammar_after = g,
             iterations = its\<rparr>
          else if current = target_word then
            \<lparr>found = True, queue_left = queue', visited_set = visited, grammar_after = g,
             iterations = its + 1\<rparr>
          else if is_terminal_string g current then
            bfs_loop g target_word max_iterations (its + 1) queue' visited
          else if length current > length target_word then
            bfs_loop g target_word max_iterations (its + 1) queue' visited
          else
            (case get_expansions g current of
               (expansions, g') \<Rightarrow>
                 (case enqueue_unvisited (\<lambda>expansion. True) expansions (queue', visited) of
                    (queue'', visited') \<Rightarrow>
                      bfs_loop g' target_word max_iterations (its + 1) queue'' visited')))"
  by pat_completeness auto

termination bfs_loop
  by (relation "measure (\<lambda>(g, target_word, max_iterations, its, queue, visited).
          max_iterations - its)") auto

declare bfs_loop.simps [simp del]

definition bfs_parse :: "grammar \<Rightarrow> string \<Rightarrow> bool \<times> grammar" where
  "bfs_parse g target_word =
     (case start_symbol g of
        None \<Rightarrow> (False, g)
      | Some start \<Rightarrow>
          if start = [] then (False, g)
          else
            (let st = bfs_loop g target_word 10000 0 [start] {start}
             in (found st, grammar_after st)))"

text \<open>
  \<^verbatim>\<open>belongs_to_grammar\<close>: the empty word goes to \<^verbatim>\<open>_can_produce_empty\<close>, a word
  with a character outside \<^verbatim>\<open>terminals\<close> is refused, and any other word goes to
  \<^verbatim>\<open>_bfs_parse\<close>.
\<close>

definition belongs_to_grammar :: "grammar \<Rightarrow> string \<Rightarrow> error + bool \<times> grammar" where
  "belongs_to_grammar g word =
     (if word = [] then can_produce_empty g
      else if \<not> list_all (\<lambda>char. [char] \<in> terminals g) word then Inr (False, g)
      else Inr (bfs_parse g word))"

section \<open>Vocabulary of the properties\<close>

text \<open>
  The productions a key stands for: the stored list, or none for an absent key. This
  is what a read of the dictionary returns, whether or not it also stores the key.
\<close>

definition stored_productions :: "grammar \<Rightarrow> string \<Rightarrow> string list" where
  "stored_productions g key = (case productions g key of None \<Rightarrow> [] | Some prods \<Rightarrow> prods)"

text \<open>
  Two grammar states agree when they have the same alphabets and start symbol and every
  read of \<^verbatim>\<open>productions\<close> returns the same list in both.
\<close>

definition same_grammar :: "grammar \<Rightarrow> grammar \<Rightarrow> bool" where
  "same_grammar g g' \<longleftrightarrow>
     terminals g' = terminals g \<and> non_terminals g' = non_terminals g \<and>
     start_symbol g' = start_symbol g \<and>
     (\<forall>key. stored_productions g' key = stored_productions g key)"

text \<open>
  The expander as the specification words it: find the first symbol that is a
  non-terminal, and substitute each of its productions, in stored order, at that
  position, keeping the prefix before it and the suffix after it; no non-terminal, no
  expansion.
\<close>

definition leftmost_expansions_spec :: "grammar \<Rightarrow> string \<Rightarrow> string list" where
  "leftmost_expansions_spec g s =
     (case dropWhile (\<lambda>c. [c] \<notin> non_terminals g) s of
        [] \<Rightarrow> []
      | c # suffix \<Rightarrow>
          map (\<lambda>rhs. takeWhile (\<lambda>c. [c] \<notin> non_terminals g) s @ rhs @ suffix)
            (stored_productions g [c]))"

text \<open>
  One leftmost production application, stated without the expander: the symbol
  rewritten is a non-terminal with only symbols that are not non-terminals before it,
  and it is replaced by one of its stored productions. A string is derivable when it is
  reached from the start symbol by finitely many such steps.
\<close>

inductive leftmost_step :: "grammar \<Rightarrow> string \<Rightarrow> string \<Rightarrow> bool" for g :: grammar where
  "\<forall>x\<in>set prefix. [x] \<notin> non_terminals g \<Longrightarrow> [c] \<in> non_terminals g \<Longrightarrow>
   rhs \<in> set (stored_productions g [c]) \<Longrightarrow>
   leftmost_step g (prefix @ c # suffix) (prefix @ rhs @ suffix)"

inductive derivable :: "grammar \<Rightarrow> string \<Rightarrow> bool" for g :: grammar where
  start: "start_symbol g = Some start \<Longrightarrow> derivable g start"
| step: "derivable g s \<Longrightarrow> leftmost_step g s t \<Longrightarrow> derivable g t"

text \<open>
  The strings a search can meet: the start symbol, and every expansion of a met string
  that is not a terminal string (no search expands a terminal string).
\<close>

inductive search_reachable :: "grammar \<Rightarrow> string \<Rightarrow> bool" for g :: grammar where
  start: "start_symbol g = Some start \<Longrightarrow> search_reachable g start"
| step: "search_reachable g s \<Longrightarrow> \<not> is_terminal_string g s \<Longrightarrow>
         t \<in> set (fst (get_expansions g s)) \<Longrightarrow> search_reachable g t"

text \<open>
  The visited strings that have left the queue of the membership search for \<open>w\<close> are
  done with: none is \<open>w\<close>, and all expansions of those that the search expands are
  visited.
\<close>

definition processed :: "grammar \<Rightarrow> string \<Rightarrow> string list \<Rightarrow> string set \<Rightarrow> bool" where
  "processed g w queue visited \<longleftrightarrow>
     (\<forall>s\<in>visited - set queue.
        s \<noteq> w \<and>
        (\<not> is_terminal_string g s \<and> length s \<le> length w \<longrightarrow>
           set (fst (get_expansions g s)) \<subseteq> visited))"

text \<open>
  The grammar that \<^verbatim>\<open>parse_grammar\<close> builds from the example text of \<^verbatim>\<open>main\<close>,
  \<^verbatim>\<open>S -> aB | bA\<close>, \<^verbatim>\<open>A -> a | aS | bAA\<close>, \<^verbatim>\<open>B -> b | bS | aBB\<close>: each line
  stores its alternatives under its left-hand side in the order written, lower-case
  characters of the alternatives are terminals, upper-case ones and the left-hand
  sides are non-terminals, and the first left-hand side is the start symbol.
\<close>

definition example_grammar :: grammar where
  "example_grammar =
     \<lparr>productions = [''S'' \<mapsto> [''aB'', ''bA''], ''A'' \<mapsto> [''a'', ''aS'', ''bAA''],
                     ''B'' \<mapsto> [''b'', ''bS'', ''aBB'']],
      terminals = {''a'', ''b''}, non_terminals = {''S'', ''A'', ''B''},
      start_symbol = Some ''S''\<rparr>"

text \<open>
  What \<^verbatim>\<open>parse_grammar\<close> builds from the two lines \<^verbatim>\<open>S -> Ab\<close> and \<^verbatim>\<open>A ->\<close>:
  the right-hand side of the second line is empty, and splitting it at \<^verbatim>\<open>|\<close>
  gives the single empty production.
\<close>

definition empty_production_grammar :: grammar where
  "empty_production_grammar =
     \<lparr>productions = [''S'' \<mapsto> [''Ab''], ''A'' \<mapsto> [[]]],
      terminals = {''b''}, non_terminals = {''S'', ''A''},
      start_symbol = Some ''S''\<rparr>"

text \<open>
  What \<^verbatim>\<open>parse_grammar\<close> builds from the single line \<^verbatim>\<open>S -> aB\<close>: \<^verbatim>\<open>B\<close> is
  upper case, so it is a non-terminal, and it has no line of its own, so it is not a
  key of \<^verbatim>\<open>productions\<close>.
\<close>

definition undefined_nonterminal_grammar :: grammar where
  "undefined_nonterminal_grammar =
     \<lparr>productions = [''S'' \<mapsto> [''aB'']],
      terminals = {''a''}, non_terminals = {''S'', ''B''},
      start_symbol = Some ''S''\<rparr>"

text \<open>
  What \<^verbatim>\<open>parse_grammar\<close> builds from the single line whose left-hand side is
  twenty-one letters \<^verbatim>\<open>S\<close> and whose right-hand side is \<^verbatim>\<open>a\<close>: the left-hand
  side is stored whole, as start symbol, as non-terminal and as key.
\<close>

definition long_start_grammar :: grammar where
  "long_start_grammar =
     \<lparr>productions = [replicate 21 CHR ''S'' \<mapsto> [''a'']],
      terminals = {''a''}, non_terminals = {replicate 21 CHR ''S''},
      start_symbol = Some (replicate 21 CHR ''S'')\<rparr>"

section \<open>The expander\<close>

lemma same_grammar_refl: "same_grammar g g"
  by (simp add: same_grammar_def)

lemma same_grammar_trans: "same_grammar g g' \<Longrightarrow> same_grammar g' g'' \<Longrightarrow> same_grammar g g''"
  by (simp add: same_grammar_def)

lemma same_grammar_sym: "same_grammar g g' \<Longrightarrow> same_grammar g' g"
  by (simp add: same_grammar_def)

lemma productions_getitem_fst: "fst (productions_getitem g key) = stored_productions g key"
  by (simp add: productions_getitem_def stored_productions_def split: option.splits)

lemma productions_getitem_snd: "same_grammar g (snd (productions_getitem g key))"
  by (auto simp: productions_getitem_def stored_productions_def same_grammar_def
      split: option.splits)

lemma expansions_scan_fst:
  "current = pre @ rest \<Longrightarrow> i = length pre \<Longrightarrow>
   fst (expansions_scan g current i rest) =
     (case dropWhile (\<lambda>c. [c] \<notin> non_terminals g) rest of
        [] \<Rightarrow> []
      | c # suffix \<Rightarrow>
          map (\<lambda>rhs. (pre @ takeWhile (\<lambda>c. [c] \<notin> non_terminals g) rest) @ rhs @ suffix)
            (stored_productions g [c]))"
proof (induction rest arbitrary: pre i)
  case Nil
  then show ?case by simp
next
  case (Cons char rest)
  show ?case
  proof (cases "[char] \<in> non_terminals g")
    case True
    then show ?thesis
      using Cons.prems productions_getitem_fst[of g "[char]"]
      by (simp add: split_beta)
  next
    case False
    have "fst (expansions_scan g current (i + 1) rest) =
      (case dropWhile (\<lambda>c. [c] \<notin> non_terminals g) rest of
        [] \<Rightarrow> []
      | c # suffix \<Rightarrow>
          map (\<lambda>rhs. ((pre @ [char]) @ takeWhile (\<lambda>c. [c] \<notin> non_terminals g) rest) @ rhs @ suffix)
            (stored_productions g [c]))"
      by (rule Cons.IH) (use Cons.prems in simp_all)
    with False show ?thesis by (simp cong: list.case_cong)
  qed
qed

lemma expansions_scan_snd: "same_grammar g (snd (expansions_scan g current i rest))"
  by (induction rest arbitrary: i)
     (simp_all add: same_grammar_refl split_beta productions_getitem_snd)

lemma get_expansions_fst: "fst (get_expansions g s) = leftmost_expansions_spec g s"
  using expansions_scan_fst[of s "[]" s 0 g]
  by (simp add: get_expansions_def leftmost_expansions_spec_def cong: list.case_cong)

lemma get_expansions_snd: "same_grammar g (snd (get_expansions g s))"
  by (simp add: get_expansions_def expansions_scan_snd)

lemma same_grammar_expansions:
  "same_grammar g g' \<Longrightarrow> fst (get_expansions g' s) = fst (get_expansions g s)"
  by (simp add: get_expansions_fst leftmost_expansions_spec_def same_grammar_def
      cong: list.case_cong)

lemma same_grammar_terminal:
  "same_grammar g g' \<Longrightarrow> is_terminal_string g' s = is_terminal_string g s"
  by (simp add: is_terminal_string_def same_grammar_def)

section \<open>Invariants of the searches\<close>

lemma enqueue_unvisited_visited:
  "snd (enqueue_unvisited admit es (q, v)) = v \<union> {e \<in> set es. admit e}"
  by (induction es arbitrary: q v) auto

lemma enqueue_unvisited_queue:
  "set (fst (enqueue_unvisited admit es (q, v))) = set q \<union> ({e \<in> set es. admit e} - v)"
  by (induction es arbitrary: q v) auto


lemma generate_loop_invariant:
  "\<forall>s t. Q s \<longrightarrow> \<not> is_terminal_string g0 s \<longrightarrow> int (length s) \<le> L \<longrightarrow>
            t \<in> set (fst (get_expansions g0 s)) \<longrightarrow> Q t \<Longrightarrow>
   same_grammar g0 g \<Longrightarrow> \<forall>s\<in>set queue. Q s \<Longrightarrow>
   fst (generate_loop g L N queue visited words) \<subseteq>
     words \<union> {s. Q s \<and> is_terminal_string g0 s \<and> int (length s) \<le> L \<and> s \<noteq> []} \<and>
   same_grammar g0 (snd (generate_loop g L N queue visited words))"
proof (induction g L N queue visited words rule: generate_loop.induct)
  case (1 g L N visited words)
  then show ?case by (simp add: generate_loop.simps)
next
  case (2 g L N current queue visited words)
  note closed = "2.prems"(1)
  have sg: "same_grammar g0 g" using "2.prems"(2) .
  have Qc: "Q current" and Qq: "\<forall>s\<in>set queue. Q s" using "2.prems"(3) by simp_all
  have tm: "is_terminal_string g current = is_terminal_string g0 current"
    by (rule same_grammar_terminal[OF sg])
  consider (full) "\<not> int (card words) < N"
    | (word) "int (card words) < N" "is_terminal_string g current"
    | (long) "int (card words) < N" "\<not> is_terminal_string g current" "int (length current) > L"
    | (expand) "int (card words) < N" "\<not> is_terminal_string g current"
        "\<not> int (length current) > L"
    by blast
  then show ?case
  proof cases
    case full
    then show ?thesis using sg by (simp add: generate_loop.simps)
  next
    case word
    let ?words = "if int (length current) \<le> L \<and> current \<noteq> []
                  then insert current words else words"
    have ih: "fst (generate_loop g L N queue visited ?words) \<subseteq>
           ?words \<union> {s. Q s \<and> is_terminal_string g0 s \<and> int (length s) \<le> L \<and> s \<noteq> []} \<and>
         same_grammar g0 (snd (generate_loop g L N queue visited ?words))"
      using "2.IH"(1)[OF _ word(2) closed sg Qq] word(1) by simp
    have eq: "generate_loop g L N (current # queue) visited words =
              generate_loop g L N queue visited ?words"
      using word by (simp add: generate_loop.simps)
    have "?words \<subseteq> words \<union> {s. Q s \<and> is_terminal_string g0 s \<and> int (length s) \<le> L \<and> s \<noteq> []}"
      using Qc word(2) tm by auto
    with ih show ?thesis unfolding eq by blast
  next
    case long
    have eq: "generate_loop g L N (current # queue) visited words =
              generate_loop g L N queue visited words"
      using long by (simp add: generate_loop.simps)
    show ?thesis unfolding eq
      using "2.IH"(2)[OF _ long(2) long(3) closed sg Qq] long(1) by simp
  next
    case expand
    obtain expansions g' where ge: "get_expansions g current = (expansions, g')"
      by (cases "get_expansions g current")
    obtain queue' visited' where
      en: "enqueue_unvisited (\<lambda>e. int (length e) \<le> L * 2) expansions (queue, visited) =
           (queue', visited')"
      by (cases "enqueue_unvisited (\<lambda>e. int (length e) \<le> L * 2) expansions (queue, visited)")
    have eq: "generate_loop g L N (current # queue) visited words =
              generate_loop g' L N queue' visited' words"
      using expand ge en by (simp add: generate_loop.simps)
    have sg': "same_grammar g0 g'"
      using same_grammar_trans[OF sg get_expansions_snd[of g current]] ge by simp
    have exp0: "expansions = fst (get_expansions g0 current)"
      using same_grammar_expansions[OF sg, of current] ge by simp
    have "\<forall>t\<in>set expansions. Q t"
    proof
      fix t assume "t \<in> set expansions"
      moreover have "\<not> is_terminal_string g0 current" using expand(2) tm by simp
      moreover have "int (length current) \<le> L" using expand(3) by simp
      ultimately show "Q t" using closed Qc exp0 by blast
    qed
    moreover have "set queue' = set queue \<union> ({e \<in> set expansions. int (length e) \<le> L * 2} - visited)"
      using enqueue_unvisited_queue[of "\<lambda>e. int (length e) \<le> L * 2" expansions queue visited] en
      by simp
    ultimately have Qq': "\<forall>s\<in>set queue'. Q s" using Qq by auto
    show ?thesis unfolding eq
      using "2.IH"(3)[OF _ expand(2) expand(3) ge[symmetric] en[symmetric] closed sg' Qq']
        expand(1) by simp
  qed
qed

lemma generate_loop_card:
  "finite words \<Longrightarrow> int (card words) \<le> N \<Longrightarrow>
   finite (fst (generate_loop g L N queue visited words)) \<and>
   int (card (fst (generate_loop g L N queue visited words))) \<le> N"
proof (induction g L N queue visited words rule: generate_loop.induct)
  case (1 g L N visited words)
  then show ?case by (simp add: generate_loop.simps)
next
  case (2 g L N current queue visited words)
  consider (full) "\<not> int (card words) < N"
    | (word) "int (card words) < N" "is_terminal_string g current"
    | (long) "int (card words) < N" "\<not> is_terminal_string g current" "int (length current) > L"
    | (expand) "int (card words) < N" "\<not> is_terminal_string g current"
        "\<not> int (length current) > L"
    by blast
  then show ?case
  proof cases
    case full
    then show ?thesis using "2.prems" by (simp add: generate_loop.simps)
  next
    case word
    let ?words = "if int (length current) \<le> L \<and> current \<noteq> []
                  then insert current words else words"
    have eq: "generate_loop g L N (current # queue) visited words =
              generate_loop g L N queue visited ?words"
      using word by (simp add: generate_loop.simps)
    have fin: "finite ?words" using "2.prems"(1) by simp
    have "card (insert current words) \<le> Suc (card words)"
      using "2.prems"(1) by (simp add: card_insert_if)
    then have cd: "int (card ?words) \<le> N" using word(1) "2.prems"(2) by auto
    show ?thesis unfolding eq
      using "2.IH"(1)[OF _ word(2) fin cd] word(1) by simp
  next
    case long
    have eq: "generate_loop g L N (current # queue) visited words =
              generate_loop g L N queue visited words"
      using long by (simp add: generate_loop.simps)
    show ?thesis unfolding eq
      using "2.IH"(2)[OF _ long(2) long(3) "2.prems"] long(1) by simp
  next
    case expand
    obtain expansions g' where ge: "get_expansions g current = (expansions, g')"
      by (cases "get_expansions g current")
    obtain queue' visited' where
      en: "enqueue_unvisited (\<lambda>e. int (length e) \<le> L * 2) expansions (queue, visited) =
           (queue', visited')"
      by (cases "enqueue_unvisited (\<lambda>e. int (length e) \<le> L * 2) expansions (queue, visited)")
    have eq: "generate_loop g L N (current # queue) visited words =
              generate_loop g' L N queue' visited' words"
      using expand ge en by (simp add: generate_loop.simps)
    show ?thesis unfolding eq
      using "2.IH"(3)[OF _ expand(2) expand(3) ge[symmetric] en[symmetric] "2.prems"]
        expand(1) by simp
  qed
qed

text \<open>
  The two membership loops obey an invariant rule: a property of the iteration count,
  the queue and the visited set that every pass of the loop body keeps, stated on the
  grammar \<open>g0\<close> the search started with, holds when the loop is left. The grammar
  the loop carries agrees with \<open>g0\<close> throughout.
\<close>

lemma bfs_loop_rule:
  "\<forall>its current queue visited.
      I its (current # queue) visited \<and> its < cap \<and> current \<noteq> w \<longrightarrow>
      (if is_terminal_string g0 current \<or> length current > length w
       then I (Suc its) queue visited
       else I (Suc its)
              (fst (enqueue_unvisited (\<lambda>_. True) (fst (get_expansions g0 current))
                     (queue, visited)))
              (snd (enqueue_unvisited (\<lambda>_. True) (fst (get_expansions g0 current))
                     (queue, visited)))) \<Longrightarrow>
   same_grammar g0 g \<Longrightarrow> I its queue visited \<Longrightarrow>
   same_grammar g0 (grammar_after (bfs_loop g w cap its queue visited)) \<and>
   (if found (bfs_loop g w cap its queue visited)
    then 0 < iterations (bfs_loop g w cap its queue visited) \<and>
         iterations (bfs_loop g w cap its queue visited) \<le> cap \<and>
         I (iterations (bfs_loop g w cap its queue visited) - 1)
           (w # queue_left (bfs_loop g w cap its queue visited))
           (visited_set (bfs_loop g w cap its queue visited))
    else I (iterations (bfs_loop g w cap its queue visited))
           (queue_left (bfs_loop g w cap its queue visited))
           (visited_set (bfs_loop g w cap its queue visited)) \<and>
         (queue_left (bfs_loop g w cap its queue visited) = [] \<or>
          \<not> iterations (bfs_loop g w cap its queue visited) < cap))"
proof (induction g w cap its queue visited rule: bfs_loop.induct)
  case (1 g w cap its queue visited)
  note step = "1.prems"(1) and sg = "1.prems"(2) and inv = "1.prems"(3)
  show ?case
  proof (cases queue)
    case Nil
    then show ?thesis using sg inv by (simp add: bfs_loop.simps)
  next
    case (Cons current queue')
    have tm: "is_terminal_string g current = is_terminal_string g0 current"
      by (rule same_grammar_terminal[OF sg])
    consider (cap) "\<not> its < cap"
      | (hit) "its < cap" "current = w"
      | (skip) "its < cap" "current \<noteq> w"
          "is_terminal_string g current \<or> length current > length w"
      | (expand) "its < cap" "current \<noteq> w" "\<not> is_terminal_string g current"
          "\<not> length current > length w"
      by blast
    then show ?thesis
    proof cases
      case cap
      then show ?thesis using sg inv Cons by (simp add: bfs_loop.simps)
    next
      case hit
      then show ?thesis using sg inv Cons by (simp add: bfs_loop.simps)
    next
      case skip
      have eq: "bfs_loop g w cap its queue visited = bfs_loop g w cap (its + 1) queue' visited"
        using skip Cons by (subst bfs_loop.simps) auto
      have nn: "\<not> \<not> its < cap" using skip(1) by simp
      have "I its (current # queue') visited \<and> its < cap \<and> current \<noteq> w"
        using inv Cons skip by simp
      with step have
        "if is_terminal_string g0 current \<or> length current > length w
         then I (Suc its) queue' visited
         else I (Suc its)
              (fst (enqueue_unvisited (\<lambda>_. True) (fst (get_expansions g0 current))
                     (queue', visited)))
              (snd (enqueue_unvisited (\<lambda>_. True) (fst (get_expansions g0 current))
                     (queue', visited)))"
        by blast
      then have inv': "I (its + 1) queue' visited"
        using skip tm by auto
      from skip(3) show ?thesis
      proof
        assume t: "is_terminal_string g current"
        show ?thesis unfolding eq
          by (rule "1.IH"(1)[OF Cons nn skip(2) t step sg inv'])
      next
        assume l: "length current > length w"
        show ?thesis
        proof (cases "is_terminal_string g current")
          case True
          show ?thesis unfolding eq
            by (rule "1.IH"(1)[OF Cons nn skip(2) True step sg inv'])
        next
          case False
          show ?thesis unfolding eq
            by (rule "1.IH"(2)[OF Cons nn skip(2) False l step sg inv'])
        qed
      qed
    next
      case expand
      obtain expansions g' where ge: "get_expansions g current = (expansions, g')"
        by (cases "get_expansions g current")
      obtain queue'' visited' where
        en: "enqueue_unvisited (\<lambda>expansion. True) expansions (queue', visited) =
             (queue'', visited')"
        by (cases "enqueue_unvisited (\<lambda>expansion. True) expansions (queue', visited)")
      have eq: "bfs_loop g w cap its queue visited =
                bfs_loop g' w cap (its + 1) queue'' visited'"
        using expand Cons ge en by (subst bfs_loop.simps) simp
      have sg': "same_grammar g0 g'"
        using same_grammar_trans[OF sg get_expansions_snd[of g current]] ge by simp
      have exp0: "fst (get_expansions g0 current) = expansions"
        using same_grammar_expansions[OF sg, of current] ge by simp
      have nn: "\<not> \<not> its < cap" using expand(1) by simp
      have "I its (current # queue') visited \<and> its < cap \<and> current \<noteq> w"
        using inv Cons expand by simp
      with step have
        "if is_terminal_string g0 current \<or> length current > length w
         then I (Suc its) queue' visited
         else I (Suc its)
              (fst (enqueue_unvisited (\<lambda>_. True) (fst (get_expansions g0 current))
                     (queue', visited)))
              (snd (enqueue_unvisited (\<lambda>_. True) (fst (get_expansions g0 current))
                     (queue', visited)))"
        by blast
      then have inv': "I (its + 1) queue'' visited'"
        using expand tm exp0 en by simp
      show ?thesis unfolding eq
        by (rule "1.IH"(3)[OF Cons nn expand(2) expand(3) expand(4) ge[symmetric]
              en[symmetric] step sg' inv'])
    qed
  qed
qed


lemma can_produce_empty_loop_rule:
  "\<forall>current queue visited.
      I (current # queue) visited \<and> current \<noteq> [] \<longrightarrow>
      (if is_terminal_string g0 current then I queue visited
       else I (fst (enqueue_unvisited (\<lambda>exp. length exp < 20)
                     (fst (get_expansions g0 current)) (queue, visited)))
              (snd (enqueue_unvisited (\<lambda>exp. length exp < 20)
                     (fst (get_expansions g0 current)) (queue, visited)))) \<Longrightarrow>
   same_grammar g0 g \<Longrightarrow> I queue visited \<Longrightarrow>
   same_grammar g0 (grammar_after (can_produce_empty_loop g queue visited)) \<and>
   (if found (can_produce_empty_loop g queue visited)
    then I ([] # queue_left (can_produce_empty_loop g queue visited))
           (visited_set (can_produce_empty_loop g queue visited))
    else queue_left (can_produce_empty_loop g queue visited) = [] \<and>
         I [] (visited_set (can_produce_empty_loop g queue visited)))"
proof (induction g queue visited rule: can_produce_empty_loop.induct)
  case (1 g visited)
  then show ?case by (simp add: can_produce_empty_loop.simps)
next
  case (2 g current queue visited)
  note step = "2.prems"(1) and sg = "2.prems"(2) and inv = "2.prems"(3)
  have tm: "is_terminal_string g current = is_terminal_string g0 current"
    by (rule same_grammar_terminal[OF sg])
  consider (hit) "current = []"
    | (skip) "current \<noteq> []" "is_terminal_string g current"
    | (expand) "current \<noteq> []" "\<not> is_terminal_string g current"
    by blast
  then show ?case
  proof cases
    case hit
    then show ?thesis using sg inv by (simp add: can_produce_empty_loop.simps)
  next
    case skip
    have eq: "can_produce_empty_loop g (current # queue) visited =
              can_produce_empty_loop g queue visited"
      using skip by (simp add: can_produce_empty_loop.simps)
    have "I (current # queue) visited \<and> current \<noteq> []" using inv skip by simp
    with step have
      "if is_terminal_string g0 current then I queue visited
       else I (fst (enqueue_unvisited (\<lambda>exp. length exp < 20)
                     (fst (get_expansions g0 current)) (queue, visited)))
              (snd (enqueue_unvisited (\<lambda>exp. length exp < 20)
                     (fst (get_expansions g0 current)) (queue, visited)))"
      by blast
    then have inv': "I queue visited" using skip tm by simp
    show ?thesis unfolding eq
      by (rule "2.IH"(1)[OF skip(1) skip(2) step sg inv'])
  next
    case expand
    obtain expansions g' where ge: "get_expansions g current = (expansions, g')"
      by (cases "get_expansions g current")
    obtain queue' visited' where
      en: "enqueue_unvisited (\<lambda>exp. length exp < 20) expansions (queue, visited) =
           (queue', visited')"
      by (cases "enqueue_unvisited (\<lambda>exp. length exp < 20) expansions (queue, visited)")
    have eq: "can_produce_empty_loop g (current # queue) visited =
              can_produce_empty_loop g' queue' visited'"
      using expand ge en by (simp add: can_produce_empty_loop.simps)
    have sg': "same_grammar g0 g'"
      using same_grammar_trans[OF sg get_expansions_snd[of g current]] ge by simp
    have exp0: "fst (get_expansions g0 current) = expansions"
      using same_grammar_expansions[OF sg, of current] ge by simp
    have "I (current # queue) visited \<and> current \<noteq> []" using inv expand by simp
    with step have
      "if is_terminal_string g0 current then I queue visited
       else I (fst (enqueue_unvisited (\<lambda>exp. length exp < 20)
                     (fst (get_expansions g0 current)) (queue, visited)))
              (snd (enqueue_unvisited (\<lambda>exp. length exp < 20)
                     (fst (get_expansions g0 current)) (queue, visited)))"
      by blast
    then have inv': "I queue' visited'" using expand tm exp0 en by simp
    show ?thesis unfolding eq
      by (rule "2.IH"(2)[OF expand(1) expand(2) ge[symmetric] en[symmetric] step sg' inv'])
  qed
qed

lemma expansion_is_leftmost_step:
  assumes "t \<in> set (fst (get_expansions g s))"
  shows "leftmost_step g s t"
proof -
  let ?P = "\<lambda>c. [c] \<notin> non_terminals g"
  from assms have t: "t \<in> set (leftmost_expansions_spec g s)" by (simp add: get_expansions_fst)
  show ?thesis
  proof (cases "dropWhile ?P s")
    case Nil
    with t show ?thesis by (simp add: leftmost_expansions_spec_def)
  next
    case (Cons c suffix)
    from t obtain rhs where rhs: "rhs \<in> set (stored_productions g [c])"
      and t': "t = takeWhile ?P s @ rhs @ suffix"
      unfolding leftmost_expansions_spec_def Cons by auto
    have s: "s = takeWhile ?P s @ c # suffix"
      using takeWhile_dropWhile_id[of ?P s] Cons by simp
    have pre: "\<forall>x\<in>set (takeWhile ?P s). [x] \<notin> non_terminals g"
      by (auto dest: set_takeWhileD)
    have "dropWhile ?P s \<noteq> []" using Cons by simp
    then have "\<not> ?P (hd (dropWhile ?P s))" by (rule hd_dropWhile)
    then have c: "[c] \<in> non_terminals g" using Cons by simp
    have "leftmost_step g (takeWhile ?P s @ c # suffix) (takeWhile ?P s @ rhs @ suffix)"
      by (rule leftmost_step.intros[OF pre c rhs])
    then show ?thesis using s t' by simp
  qed
qed

lemma search_reachable_derivable: "search_reachable g s \<Longrightarrow> derivable g s"
  by (induction rule: search_reachable.induct)
     (auto intro: derivable.intros expansion_is_leftmost_step)

lemma same_grammar_search_reachable:
  assumes "same_grammar g g'"
  shows "search_reachable g' s \<Longrightarrow> search_reachable g s"
proof (induction rule: search_reachable.induct)
  case (start start)
  then show ?case using assms by (auto simp: same_grammar_def intro: search_reachable.start)
next
  case (step s t)
  then show ?case
    using same_grammar_expansions[OF assms, of s] same_grammar_terminal[OF assms, of s]
    by (auto intro: search_reachable.step)
qed

text \<open>Every string in the queue or the visited set of a search is reachable.\<close>

lemma bfs_loop_reachable:
  assumes "same_grammar g0 g" and "\<forall>s\<in>set queue \<union> visited. search_reachable g0 s"
  shows "\<forall>s\<in>set (queue_left (bfs_loop g w cap its queue visited)) \<union>
            visited_set (bfs_loop g w cap its queue visited). search_reachable g0 s"
    and "found (bfs_loop g w cap its queue visited) \<Longrightarrow> search_reachable g0 w"
proof -
  let ?I = "\<lambda>(its::nat) q v. \<forall>s\<in>set q \<union> v. search_reachable g0 s"
  have step: "\<forall>its current queue visited.
      ?I its (current # queue) visited \<and> its < cap \<and> current \<noteq> w \<longrightarrow>
      (if is_terminal_string g0 current \<or> length current > length w
       then ?I (Suc its) queue visited
       else ?I (Suc its)
              (fst (enqueue_unvisited (\<lambda>_. True) (fst (get_expansions g0 current))
                     (queue, visited)))
              (snd (enqueue_unvisited (\<lambda>_. True) (fst (get_expansions g0 current))
                     (queue, visited))))"
    by (auto simp: enqueue_unvisited_queue enqueue_unvisited_visited
        intro: search_reachable.step)
  note r = bfs_loop_rule[of ?I cap w g0 g its queue visited, OF step assms(1)]
  from r assms(2)
  show "\<forall>s\<in>set (queue_left (bfs_loop g w cap its queue visited)) \<union>
            visited_set (bfs_loop g w cap its queue visited). search_reachable g0 s"
    by (auto split: if_splits)
  from r assms(2)
  show "found (bfs_loop g w cap its queue visited) \<Longrightarrow> search_reachable g0 w"
    by (auto split: if_splits)
qed

lemma bfs_loop_iterations:
  assumes "its \<le> cap"
  shows "iterations (bfs_loop g w cap its queue visited) \<le> cap"
proof -
  let ?I = "\<lambda>(its::nat) (q::string list) (v::string set). its \<le> cap"
  have step: "\<forall>its current queue visited.
      ?I its (current # queue) visited \<and> its < cap \<and> current \<noteq> w \<longrightarrow>
      (if is_terminal_string g current \<or> length current > length w
       then ?I (Suc its) queue visited
       else ?I (Suc its)
              (fst (enqueue_unvisited (\<lambda>_. True) (fst (get_expansions g current))
                     (queue, visited)))
              (snd (enqueue_unvisited (\<lambda>_. True) (fst (get_expansions g current))
                     (queue, visited))))"
    by auto
  from bfs_loop_rule[of ?I cap w g g its queue visited, OF step same_grammar_refl] assms
  show ?thesis by (auto split: if_splits)
qed

text \<open>
  Without empty productions a leftmost step never shortens a string. In the example
  grammar a step keeps the number of \<open>a\<close> and \<open>A\<close> equal to the number of \<open>b\<close>
  and \<open>B\<close>.
\<close>

lemma leftmost_step_length:
  assumes "leftmost_step g s t" and "\<forall>key. [] \<notin> set (stored_productions g key)"
  shows "length s \<le> length t \<and> t \<noteq> []"
  using assms
proof (cases rule: leftmost_step.cases)
  case (1 prefix c rhs suffix)
  then have "rhs \<noteq> []" using assms(2) by metis
  then show ?thesis using 1 by (cases rhs) auto
qed

lemma example_grammar_no_empty_production:
  "\<forall>key. [] \<notin> set (stored_productions example_grammar key)"
  by (simp add: stored_productions_def example_grammar_def)

lemma example_step_balance:
  assumes "leftmost_step example_grammar s t"
    and "count_list s CHR ''a'' + count_list s CHR ''A'' =
         count_list s CHR ''b'' + count_list s CHR ''B''"
  shows "count_list t CHR ''a'' + count_list t CHR ''A'' =
         count_list t CHR ''b'' + count_list t CHR ''B''"
  using assms(1)
proof (cases rule: leftmost_step.cases)
  case (1 prefix c rhs suffix)
  from 1(4) have "c = CHR ''S'' \<or> c = CHR ''A'' \<or> c = CHR ''B''"
    by (simp add: example_grammar_def)
  then consider "c = CHR ''S''" "rhs = ''aB'' \<or> rhs = ''bA''"
    | "c = CHR ''A''" "rhs = ''a'' \<or> rhs = ''aS'' \<or> rhs = ''bAA''"
    | "c = CHR ''B''" "rhs = ''b'' \<or> rhs = ''bS'' \<or> rhs = ''aBB''"
    using 1(5) by (auto simp: stored_productions_def example_grammar_def)
  then show ?thesis
    using assms(2) unfolding 1(1,2) by cases auto
qed

text \<open>
  The membership search is complete up to its cap when no production is empty: a
  reachable string no longer than the target is visited before the queue runs empty,
  because the strings on the way to it are no longer than it either. Every generated
  word is reachable.
\<close>

lemma same_grammar_no_empty:
  "same_grammar g g' \<Longrightarrow> \<forall>key. [] \<notin> set (stored_productions g key) \<Longrightarrow>
   \<forall>key. [] \<notin> set (stored_productions g' key)"
  by (simp add: same_grammar_def)

lemma processed_closed:
  assumes ne: "\<forall>key. [] \<notin> set (stored_productions g key)"
    and st: "start_symbol g = Some start" and sv: "start \<in> V"
    and pr: "processed g w [] V"
  shows "search_reachable g s \<Longrightarrow> length s \<le> length w \<Longrightarrow> s \<in> V"
proof (induction rule: search_reachable.induct)
  case (start start')
  then show ?case using st sv by simp
next
  case (step s t)
  have "length s \<le> length t"
    using leftmost_step_length[OF expansion_is_leftmost_step[OF step.hyps(3)] ne] by simp
  then have ls: "length s \<le> length w" using step.prems by simp
  then have "s \<in> V" by (rule step.IH)
  then have "set (fst (get_expansions g s)) \<subseteq> V"
    using pr step.hyps(2) ls by (simp add: processed_def)
  then show ?case using step.hyps(3) by blast
qed

lemma bfs_loop_complete:
  assumes ne: "\<forall>key. [] \<notin> set (stored_productions g key)"
    and st: "start_symbol g = Some start"
    and rw: "search_reachable g w"
  shows "found (bfs_loop g w cap 0 [start] {start}) \<or>
         iterations (bfs_loop g w cap 0 [start] {start}) = cap"
proof -
  let ?st = "bfs_loop g w cap 0 [start] {start}"
  let ?I = "\<lambda>(its::nat) q v. start \<in> v \<and> processed g w q v"
  have step: "\<forall>its current queue visited.
      ?I its (current # queue) visited \<and> its < cap \<and> current \<noteq> w \<longrightarrow>
      (if is_terminal_string g current \<or> length current > length w
       then ?I (Suc its) queue visited
       else ?I (Suc its)
              (fst (enqueue_unvisited (\<lambda>_. True) (fst (get_expansions g current))
                     (queue, visited)))
              (snd (enqueue_unvisited (\<lambda>_. True) (fst (get_expansions g current))
                     (queue, visited))))"
    unfolding processed_def enqueue_unvisited_queue enqueue_unvisited_visited
    by (intro allI impI) (auto split: if_splits)
  have init: "?I 0 [start] {start}" by (simp add: processed_def)
  note r = bfs_loop_rule[of ?I cap w g g 0 "[start]" "{start}", OF step same_grammar_refl init]
  have le: "iterations ?st \<le> cap" by (rule bfs_loop_iterations) simp
  show ?thesis
  proof (rule ccontr)
    assume "\<not> ?thesis"
    then have nf: "\<not> found ?st" and lt: "iterations ?st < cap" using le by auto
    with r have q: "queue_left ?st = []" and sv: "start \<in> visited_set ?st"
      and pr: "processed g w (queue_left ?st) (visited_set ?st)"
      by auto
    from pr q have pr': "processed g w [] (visited_set ?st)" by simp
    have "w \<in> visited_set ?st"
      by (rule processed_closed[OF ne st sv pr' rw]) simp
    with pr' show False by (auto simp: processed_def)
  qed
qed

lemma generated_word_reachable:
  assumes "w \<in> set (fst (generate_words g max_length max_words))"
  shows "\<exists>start. start_symbol g = Some start \<and> start \<noteq> [] \<and> search_reachable g w \<and>
                 is_terminal_string g w \<and> w \<noteq> []"
proof -
  from assms obtain start where st: "start_symbol g = Some start" "start \<noteq> []"
    by (auto simp: generate_words_def split: option.splits if_splits)
  let ?W = "fst (generate_loop g max_length max_words [start] {start} {})"
  have ws: "fst (generate_words g max_length max_words) = sorted_list_of_set ?W"
    using st by (simp add: generate_words_def split_beta)
  have fin: "finite ?W"
  proof (cases "0 \<le> max_words")
    case True
    then show ?thesis
      using generate_loop_card[of "{}" max_words g max_length "[start]" "{start}"] by simp
  next
    case False
    then show ?thesis by (simp add: generate_loop.simps)
  qed
  have closed: "\<forall>s t. search_reachable g s \<longrightarrow> \<not> is_terminal_string g s \<longrightarrow>
            int (length s) \<le> max_length \<longrightarrow>
            t \<in> set (fst (get_expansions g s)) \<longrightarrow> search_reachable g t"
    by (blast intro: search_reachable.step)
  have q0: "\<forall>s\<in>set [start]. search_reachable g s"
    using st by (simp add: search_reachable.start)
  have "?W \<subseteq> {} \<union> {s. search_reachable g s \<and> is_terminal_string g s \<and>
                         int (length s) \<le> max_length \<and> s \<noteq> []}"
    using generate_loop_invariant[of "search_reachable g" g max_length g "[start]" max_words
        "{start}" "{}", OF closed same_grammar_refl q0]
    by simp
  moreover have "w \<in> ?W" using assms fin unfolding ws by simp
  ultimately show ?thesis using st by auto
qed

lemma is_terminal_string_iff: "is_terminal_string g s \<longleftrightarrow> (\<forall>c\<in>set s. [c] \<in> terminals g)"
  by (simp add: is_terminal_string_def list_all_iff)

section \<open>Properties of the expander and of generation\<close>

text \<open>
  Claim C5. For every sentential form \<open>s\<close>, the list \<^verbatim>\<open>_get_expansions(s)\<close> returns
  is the one the specification describes: the leftmost symbol that is a non-terminal
  is located and each of its productions, in stored order, is substituted at that
  position between the unchanged prefix and suffix; a form with no non-terminal has no
  expansion.
\<close>

theorem get_expansions_leftmost:
  "fst (get_expansions g s) = leftmost_expansions_spec g s \<and>
   ((\<forall>x\<in>set s. [x] \<notin> non_terminals g) \<longrightarrow> fst (get_expansions g s) = []) \<and>
   (\<forall>prefix c suffix.
      s = prefix @ c # suffix \<and> (\<forall>x\<in>set prefix. [x] \<notin> non_terminals g) \<and>
      [c] \<in> non_terminals g \<longrightarrow>
      fst (get_expansions g s) =
        map (\<lambda>rhs. prefix @ rhs @ suffix) (stored_productions g [c]))"
proof (intro conjI allI impI)
  show "fst (get_expansions g s) = leftmost_expansions_spec g s"
    by (rule get_expansions_fst)
next
  assume "\<forall>x\<in>set s. [x] \<notin> non_terminals g"
  then have d: "dropWhile (\<lambda>c. [c] \<notin> non_terminals g) s = []" by simp
  show "fst (get_expansions g s) = []"
    unfolding get_expansions_fst leftmost_expansions_spec_def d by simp
next
  fix prefix c suffix
  assume a: "s = prefix @ c # suffix \<and> (\<forall>x\<in>set prefix. [x] \<notin> non_terminals g) \<and>
      [c] \<in> non_terminals g"
  then have d: "dropWhile (\<lambda>c. [c] \<notin> non_terminals g) s = c # suffix"
    and t: "takeWhile (\<lambda>c. [c] \<notin> non_terminals g) s = prefix"
    by (simp_all add: dropWhile_append3 takeWhile_tail)
  show "fst (get_expansions g s) =
        map (\<lambda>rhs. prefix @ rhs @ suffix) (stored_productions g [c])"
    unfolding get_expansions_fst leftmost_expansions_spec_def d t by simp
qed

theorem get_expansions_leftmost_witness:
  "fst (get_expansions example_grammar ''abAB'') = [''abaB'', ''abaSB'', ''abbAAB''] \<and>
   fst (get_expansions example_grammar ''abab'') = []"
proof -
  have nt: "non_terminals example_grammar = {''S'', ''A'', ''B''}"
    by (simp add: example_grammar_def)
  have "''abAB'' = ''ab'' @ CHR ''A'' # ''B'' \<and>
        (\<forall>x\<in>set ''ab''. [x] \<notin> non_terminals example_grammar) \<and>
        [CHR ''A''] \<in> non_terminals example_grammar"
    by (simp add: nt)
  then have "fst (get_expansions example_grammar ''abAB'') =
        map (\<lambda>rhs. ''ab'' @ rhs @ ''B'') (stored_productions example_grammar ''A'')"
    using get_expansions_leftmost[of example_grammar "''abAB''"] by blast
  moreover have "stored_productions example_grammar ''A'' = [''a'', ''aS'', ''bAA'']"
    by (simp add: stored_productions_def example_grammar_def)
  moreover have "\<forall>x\<in>set ''abab''. [x] \<notin> non_terminals example_grammar"
    by (simp add: nt)
  then have "fst (get_expansions example_grammar ''abab'') = []"
    using get_expansions_leftmost[of example_grammar "''abab''"] by blast
  ultimately show ?thesis by simp
qed

text \<open>
  Claim C4. For every grammar and positive bounds, \<^verbatim>\<open>generate_words\<close> returns a
  lexicographically sorted list of pairwise distinct words, of at most
  \<^verbatim>\<open>max_words\<close> elements, each of them nonempty, no longer than
  \<^verbatim>\<open>max_length\<close> and made of symbols of the terminal set only.
\<close>

theorem generate_words_sorted_distinct_bounded:
  assumes "0 < max_length" and "0 < max_words"
  shows "sorted (fst (generate_words g max_length max_words)) \<and>
         distinct (fst (generate_words g max_length max_words)) \<and>
         int (length (fst (generate_words g max_length max_words))) \<le> max_words \<and>
         (\<forall>w\<in>set (fst (generate_words g max_length max_words)).
            w \<noteq> [] \<and> int (length w) \<le> max_length \<and> (\<forall>c\<in>set w. [c] \<in> terminals g))"
proof (cases "\<exists>start. start_symbol g = Some start \<and> start \<noteq> []")
  case False
  then have "fst (generate_words g max_length max_words) = []"
    by (auto simp: generate_words_def split: option.splits)
  then show ?thesis using assms by simp
next
  case True
  then obtain start where st: "start_symbol g = Some start" "start \<noteq> []" by blast
  let ?W = "fst (generate_loop g max_length max_words [start] {start} {})"
  have ws: "fst (generate_words g max_length max_words) = sorted_list_of_set ?W"
    using st by (simp add: generate_words_def split_beta)
  have fin: "finite ?W" and cd: "int (card ?W) \<le> max_words"
    using generate_loop_card[of "{}" max_words g max_length "[start]" "{start}"] assms(2)
    by simp_all
  have sub: "?W \<subseteq> {s. is_terminal_string g s \<and> int (length s) \<le> max_length \<and> s \<noteq> []}"
    using generate_loop_invariant[of "\<lambda>_. True" g max_length g "[start]" max_words "{start}" "{}"]
    by (simp add: same_grammar_refl)
  have "length (sorted_list_of_set ?W) = card ?W" by simp
  with cd have len: "int (length (sorted_list_of_set ?W)) \<le> max_words" by simp
  have "\<forall>w\<in>?W. w \<noteq> [] \<and> int (length w) \<le> max_length \<and> (\<forall>c\<in>set w. [c] \<in> terminals g)"
    using sub by (auto simp: is_terminal_string_iff)
  then show ?thesis unfolding ws using fin len by simp
qed

theorem generate_words_sorted_distinct_bounded_witness:
  "(0::int) < 4 \<and> (0::int) < 10 \<and>
   fst (generate_words example_grammar 4 10) =
     [''aabb'', ''ab'', ''abab'', ''abba'', ''ba'', ''baab'', ''baba'', ''bbaa''] \<and>
   sorted (fst (generate_words example_grammar 4 10)) \<and>
   distinct (fst (generate_words example_grammar 4 10)) \<and>
   int (length (fst (generate_words example_grammar 4 10))) \<le> 10 \<and>
   ''aabb'' \<in> set (fst (generate_words example_grammar 4 10)) \<and>
   ''aabb'' \<noteq> [] \<and> int (length ''aabb'') \<le> 4 \<and>
   [CHR ''a''] \<in> terminals example_grammar \<and> [CHR ''b''] \<in> terminals example_grammar"
proof -
  have e: "fst (generate_words example_grammar 4 10) =
     [''aabb'', ''ab'', ''abab'', ''abba'', ''ba'', ''baab'', ''baba'', ''bbaa'']"
    by code_simp
  have "''aabb'' \<in> set (fst (generate_words example_grammar 4 10))"
    unfolding e by simp
  moreover have "(0::int) < 4" and "(0::int) < 10" by simp_all
  note generate_words_sorted_distinct_bounded[OF this, of example_grammar]
  ultimately have "sorted (fst (generate_words example_grammar 4 10)) \<and>
        distinct (fst (generate_words example_grammar 4 10)) \<and>
        int (length (fst (generate_words example_grammar 4 10))) \<le> 10 \<and>
        ''aabb'' \<noteq> [] \<and> int (length ''aabb'') \<le> 4 \<and>
        (\<forall>c\<in>set ''aabb''. [c] \<in> terminals example_grammar)"
    by blast
  then show ?thesis using e by simp
qed

section \<open>Properties of the membership query\<close>

text \<open>
  Claim C7. A nonempty word with a character outside the terminal set is refused at
  once: the answer is \<open>False\<close> whatever the productions and the start symbol are,
  and the grammar is as before, no sentential form having been expanded. The search is
  not asked: for the word \<^verbatim>\<open>S\<close> on the example grammar \<^verbatim>\<open>_bfs_parse\<close> would
  answer \<open>True\<close>, the start symbol being its own target, and the query answers
  \<open>False\<close>.
\<close>

theorem belongs_rejects_foreign_characters:
  "word \<noteq> [] \<Longrightarrow> \<exists>c\<in>set word. [c] \<notin> terminals g \<Longrightarrow>
   belongs_to_grammar g word = Inr (False, g)"
  by (auto simp: belongs_to_grammar_def list_all_iff)

theorem belongs_rejects_foreign_characters_witness:
  "''S'' \<noteq> [] \<and> (\<exists>c\<in>set ''S''. [c] \<notin> terminals example_grammar) \<and>
   fst (bfs_parse example_grammar ''S'') \<and>
   belongs_to_grammar example_grammar ''S'' = Inr (False, example_grammar)"
proof -
  have ne: "''S'' \<noteq> []" by simp
  have out: "\<exists>c\<in>set ''S''. [c] \<notin> terminals example_grammar"
    by (simp add: example_grammar_def)
  have search: "fst (bfs_parse example_grammar ''S'')"
    by code_simp
  from belongs_rejects_foreign_characters[OF ne out] ne out search show ?thesis
    by blast
qed

text \<open>
  The membership query raises in exactly one case, the empty word asked of a processor
  with no start symbol; in every other case it returns a boolean.
\<close>

lemma belongs_to_grammar_raises_iff:
  "belongs_to_grammar g word = Inl TypeError \<longleftrightarrow> word = [] \<and> start_symbol g = None"
  by (auto simp: belongs_to_grammar_def can_produce_empty_def Let_def
      split: if_splits option.splits)

text \<open>
  Claim C3, at the input where it fails. Before any grammar is parsed the start symbol
  is \<^verbatim>\<open>None\<close>; the membership query for the empty word then raises
  \<^verbatim>\<open>TypeError\<close> instead of returning a boolean.
\<close>

theorem belongs_empty_word_without_grammar:
  "belongs_to_grammar init_grammar [] = Inl TypeError"
  by (simp add: belongs_to_grammar_def can_produce_empty_def init_grammar_def)

text \<open>
  What the searches do keep: the alphabets, the start symbol and the list every read
  of \<^verbatim>\<open>productions\<close> returns. Only the set of keys can grow.
\<close>

lemma generate_words_same_grammar:
  "same_grammar g (snd (generate_words g max_length max_words))"
  using generate_loop_invariant[of "\<lambda>_. True" g max_length g _ max_words]
  by (auto simp: generate_words_def split_beta same_grammar_refl split: option.splits)

lemma can_produce_empty_loop_same_grammar:
  "same_grammar g (grammar_after (can_produce_empty_loop g queue visited))"
  using can_produce_empty_loop_rule[of "\<lambda>_ _. True" g g queue visited]
  by (simp add: same_grammar_refl)

lemma bfs_loop_same_grammar:
  "same_grammar g (grammar_after (bfs_loop g w cap its queue visited))"
  using bfs_loop_rule[of "\<lambda>_ _ _. True" cap w g g its queue visited]
  by (simp add: same_grammar_refl)

lemma belongs_to_grammar_same_grammar:
  "belongs_to_grammar g word = Inr (answer, g') \<Longrightarrow> same_grammar g g'"
  using can_produce_empty_loop_same_grammar bfs_loop_same_grammar
  by (auto simp: belongs_to_grammar_def can_produce_empty_def bfs_parse_def Let_def
      same_grammar_refl split: if_splits option.splits)

text \<open>
  Claim C2, at the input where it fails. With a non-terminal that has no production
  line, both \<^verbatim>\<open>generate_words\<close> and \<^verbatim>\<open>belongs_to_grammar\<close> leave
  \<^verbatim>\<open>productions\<close> with a key it did not have after parsing.
\<close>

theorem searches_store_undefined_nonterminal:
  "productions undefined_nonterminal_grammar ''B'' = None \<and>
   productions (snd (generate_words undefined_nonterminal_grammar 10 100)) ''B'' = Some [] \<and>
   (case belongs_to_grammar undefined_nonterminal_grammar ''aa'' of
      Inl e \<Rightarrow> False
    | Inr (answer, g') \<Rightarrow> productions g' ''B'' = Some [])"
  by code_simp

text \<open>
  Claim C8. Every string the membership search puts in its queue or its visited set is
  derivable from the start symbol by leftmost production applications, and so a
  nonempty word for which \<^verbatim>\<open>belongs_to_grammar\<close> answers \<open>True\<close> is derivable.
  The loop stopped after \<open>cap\<close> passes is in the state the search is in after that
  many passes, so the first part, for every \<open>cap\<close>, covers every string ever added.
\<close>

theorem membership_search_meets_derivable_strings_only:
  "(\<forall>start cap. start_symbol g = Some start \<longrightarrow>
      (\<forall>s\<in>set (queue_left (bfs_loop g word cap 0 [start] {start})) \<union>
            visited_set (bfs_loop g word cap 0 [start] {start}). derivable g s)) \<and>
   (\<forall>g'. word \<noteq> [] \<longrightarrow> belongs_to_grammar g word = Inr (True, g') \<longrightarrow> derivable g word)"
proof (intro conjI allI impI)
  fix start cap
  assume st: "start_symbol g = Some start"
  then have "\<forall>s\<in>set [start] \<union> {start}. search_reachable g s"
    by (simp add: search_reachable.start)
  from bfs_loop_reachable(1)[OF same_grammar_refl this]
  show "\<forall>s\<in>set (queue_left (bfs_loop g word cap 0 [start] {start})) \<union>
            visited_set (bfs_loop g word cap 0 [start] {start}). derivable g s"
    by (blast intro: search_reachable_derivable)
next
  fix g'
  assume ne: "word \<noteq> []" and b: "belongs_to_grammar g word = Inr (True, g')"
  from b ne obtain start where st: "start_symbol g = Some start"
    and f: "found (bfs_loop g word 10000 0 [start] {start})"
    by (auto simp: belongs_to_grammar_def bfs_parse_def Let_def
        split: if_splits option.splits)
  from st have "\<forall>s\<in>set [start] \<union> {start}. search_reachable g s"
    by (simp add: search_reachable.start)
  from bfs_loop_reachable(2)[OF same_grammar_refl this f]
  show "derivable g word" by (rule search_reachable_derivable)
qed

theorem membership_search_meets_derivable_strings_only_witness:
  "start_symbol example_grammar = Some ''S'' \<and>
   ''aB'' \<in> visited_set (bfs_loop example_grammar ''ab'' 10000 0 [''S''] {''S''}) \<and>
   derivable example_grammar ''aB'' \<and>
   ''ab'' \<noteq> [] \<and>
   map_sum id fst (belongs_to_grammar example_grammar ''ab'') = Inr True \<and>
   derivable example_grammar ''ab''"
proof -
  have st: "start_symbol example_grammar = Some ''S''"
    by (simp add: example_grammar_def)
  have v: "''aB'' \<in> visited_set (bfs_loop example_grammar ''ab'' 10000 0 [''S''] {''S''})"
    by code_simp
  have b: "map_sum id fst (belongs_to_grammar example_grammar ''ab'') = Inr True"
    by code_simp
  then obtain g' where b': "belongs_to_grammar example_grammar ''ab'' = Inr (True, g')"
    by (cases "belongs_to_grammar example_grammar ''ab''") auto
  note t = membership_search_meets_derivable_strings_only[of example_grammar "''ab''"]
  from t st v have "derivable example_grammar ''aB''" by blast
  moreover from t b' have "derivable example_grammar ''ab''" by blast
  ultimately show ?thesis using st v b by simp
qed

text \<open>
  Claim C6. Every call of \<^verbatim>\<open>belongs_to_grammar\<close> terminates. Its answer is, case by
  case, that of one of the two loops, and both loops are total functions by the
  termination proofs given with their definitions. For a nonempty word of terminals
  the answer is that of the membership loop run with the cap 10000 that
  \<^verbatim>\<open>_bfs_parse\<close> sets, and that loop makes at most 10000 passes; for any other
  nonempty word no loop is run. For the empty word the answer is that of the
  empty-word check, which visits no string longer than 20, visits finitely many
  strings and is left with its queue empty unless it has met the empty form. The start
  symbol is a symbol of the grammar, hence not longer than 20; with no start symbol
  the call ends at once by raising.
\<close>

theorem belongs_to_grammar_terminates_within_bounds:
  "(\<forall>start. word \<noteq> [] \<and> list_all (\<lambda>char. [char] \<in> terminals g) word \<and>
            start_symbol g = Some start \<and> start \<noteq> [] \<longrightarrow>
      belongs_to_grammar g word =
        Inr (found (bfs_loop g word 10000 0 [start] {start}),
             grammar_after (bfs_loop g word 10000 0 [start] {start})) \<and>
      iterations (bfs_loop g word 10000 0 [start] {start}) \<le> 10000) \<and>
   (word \<noteq> [] \<and>
    (\<not> list_all (\<lambda>char. [char] \<in> terminals g) word \<or> start_symbol g = None \<or>
     start_symbol g = Some []) \<longrightarrow>
      belongs_to_grammar g word = Inr (False, g)) \<and>
   (\<forall>start. word = [] \<and> start_symbol g = Some start \<and> length start \<le> 20 \<longrightarrow>
      belongs_to_grammar g word =
        Inr (found (can_produce_empty_loop g [start] {start}),
             grammar_after (can_produce_empty_loop g [start] {start})) \<and>
      (\<forall>s\<in>visited_set (can_produce_empty_loop g [start] {start}). length s \<le> 20) \<and>
      finite (visited_set (can_produce_empty_loop g [start] {start})) \<and>
      (found (can_produce_empty_loop g [start] {start}) \<or>
       queue_left (can_produce_empty_loop g [start] {start}) = [])) \<and>
   (word = [] \<and> start_symbol g = None \<longrightarrow> belongs_to_grammar g word = Inl TypeError)"
proof (intro conjI allI impI)
  fix start
  assume a: "word \<noteq> [] \<and> list_all (\<lambda>char. [char] \<in> terminals g) word \<and>
            start_symbol g = Some start \<and> start \<noteq> []"
  then show "belongs_to_grammar g word =
        Inr (found (bfs_loop g word 10000 0 [start] {start}),
             grammar_after (bfs_loop g word 10000 0 [start] {start}))"
    by (simp add: belongs_to_grammar_def bfs_parse_def Let_def)
  show "iterations (bfs_loop g word 10000 0 [start] {start}) \<le> 10000"
    by (rule bfs_loop_iterations) simp
next
  assume "word \<noteq> [] \<and>
    (\<not> list_all (\<lambda>char. [char] \<in> terminals g) word \<or> start_symbol g = None \<or>
     start_symbol g = Some [])"
  then show "belongs_to_grammar g word = Inr (False, g)"
    by (auto simp: belongs_to_grammar_def bfs_parse_def)
next
  fix start :: string
  assume a: "word = [] \<and> start_symbol g = Some start \<and> length start \<le> 20"
  let ?E = "can_produce_empty_loop g [start] {start}"
  from a show "belongs_to_grammar g word = Inr (found ?E, grammar_after ?E)"
    by (simp add: belongs_to_grammar_def can_produce_empty_def Let_def)
  let ?I = "\<lambda>(q::string list) (v::string set). \<forall>s\<in>v. length s \<le> 20"
  have step: "\<forall>current queue visited.
      ?I (current # queue) visited \<and> current \<noteq> [] \<longrightarrow>
      (if is_terminal_string g current then ?I queue visited
       else ?I (fst (enqueue_unvisited (\<lambda>exp. length exp < 20)
                     (fst (get_expansions g current)) (queue, visited)))
              (snd (enqueue_unvisited (\<lambda>exp. length exp < 20)
                     (fst (get_expansions g current)) (queue, visited))))"
    by (auto simp: enqueue_unvisited_visited)
  have init: "?I [start] {start}" using a by simp
  note r = can_produce_empty_loop_rule[of ?I g g "[start]" "{start}",
      OF step same_grammar_refl init]
  from r show b: "\<forall>s\<in>visited_set ?E. length s \<le> 20"
    by (auto split: if_splits)
  then have "visited_set ?E \<subseteq> {s. length s \<le> 20}" by auto
  then show "finite (visited_set ?E)"
    by (rule finite_subset) (rule finite_strings_le)
  from r show "found ?E \<or> queue_left ?E = []"
    by (auto split: if_splits)
next
  assume "word = [] \<and> start_symbol g = None"
  then show "belongs_to_grammar g word = Inl TypeError"
    by (simp add: belongs_to_grammar_def can_produce_empty_def)
qed

theorem belongs_to_grammar_terminates_within_bounds_witness:
  "''ab'' \<noteq> [] \<and> list_all (\<lambda>char. [char] \<in> terminals example_grammar) ''ab'' \<and>
   start_symbol example_grammar = Some ''S'' \<and> ''S'' \<noteq> [] \<and> length ''S'' \<le> 20 \<and>
   belongs_to_grammar example_grammar ''ab'' =
     Inr (found (bfs_loop example_grammar ''ab'' 10000 0 [''S''] {''S''}),
          grammar_after (bfs_loop example_grammar ''ab'' 10000 0 [''S''] {''S''})) \<and>
   iterations (bfs_loop example_grammar ''ab'' 10000 0 [''S''] {''S''}) = 4 \<and>
   iterations (bfs_loop example_grammar ''ab'' 10000 0 [''S''] {''S''}) \<le> 10000 \<and>
   belongs_to_grammar example_grammar [] =
     Inr (found (can_produce_empty_loop example_grammar [''S''] {''S''}),
          grammar_after (can_produce_empty_loop example_grammar [''S''] {''S''})) \<and>
   finite (visited_set (can_produce_empty_loop example_grammar [''S''] {''S''})) \<and>
   (found (can_produce_empty_loop example_grammar [''S''] {''S''}) \<or>
    queue_left (can_produce_empty_loop example_grammar [''S''] {''S''}) = [])"
proof -
  have h1: "''ab'' \<noteq> [] \<and> list_all (\<lambda>char. [char] \<in> terminals example_grammar) ''ab'' \<and>
            start_symbol example_grammar = Some ''S'' \<and> ''S'' \<noteq> []"
    by (simp add: example_grammar_def)
  have h3: "[] = ([]::string) \<and> start_symbol example_grammar = Some ''S'' \<and>
            length ''S'' \<le> 20"
    by (simp add: example_grammar_def)
  have it: "iterations (bfs_loop example_grammar ''ab'' 10000 0 [''S''] {''S''}) = 4"
    by code_simp
  note t1 = belongs_to_grammar_terminates_within_bounds[of "''ab''" example_grammar]
  note t3 = belongs_to_grammar_terminates_within_bounds[of "[]" example_grammar]
  from t1 h1 have c1: "belongs_to_grammar example_grammar ''ab'' =
     Inr (found (bfs_loop example_grammar ''ab'' 10000 0 [''S''] {''S''}),
          grammar_after (bfs_loop example_grammar ''ab'' 10000 0 [''S''] {''S''})) \<and>
   iterations (bfs_loop example_grammar ''ab'' 10000 0 [''S''] {''S''}) \<le> 10000"
    by blast
  from t3 h3 have c3: "belongs_to_grammar example_grammar [] =
     Inr (found (can_produce_empty_loop example_grammar [''S''] {''S''}),
          grammar_after (can_produce_empty_loop example_grammar [''S''] {''S''})) \<and>
   finite (visited_set (can_produce_empty_loop example_grammar [''S''] {''S''})) \<and>
   (found (can_produce_empty_loop example_grammar [''S''] {''S''}) \<or>
    queue_left (can_produce_empty_loop example_grammar [''S''] {''S''}) = [])"
    by blast
  from h1 h3 it c1 c3 show ?thesis by simp
qed

text \<open>
  The start symbol enters the queue of the empty-word check unchecked; only expansions
  are held below 20. A left-hand side of twenty-one letters, which is not a symbol of
  the grammar format, would be taken from the queue and scanned like any other string.
\<close>

lemma empty_search_takes_start_symbol_unchecked:
  "start_symbol long_start_grammar = Some (replicate 21 CHR ''S'') \<and>
   replicate 21 CHR ''S'' \<in>
     visited_set (can_produce_empty_loop long_start_grammar
                    [replicate 21 CHR ''S''] {replicate 21 CHR ''S''}) \<and>
   queue_left (can_produce_empty_loop long_start_grammar
                    [replicate 21 CHR ''S''] {replicate 21 CHR ''S''}) = [] \<and>
   \<not> length (replicate 21 CHR ''S'') \<le> 20 \<and>
   map_sum id fst (belongs_to_grammar long_start_grammar []) = Inr False"
  by code_simp

section \<open>The example grammar\<close>

text \<open>
  Claim C10. On the example grammar the membership query for the empty word answers
  \<open>False\<close>: the empty-word check is left with its queue empty and without the empty
  sentential form among the visited strings.
\<close>

theorem example_grammar_rejects_empty_word:
  "map_sum id fst (belongs_to_grammar example_grammar []) = Inr False \<and>
   \<not> found (can_produce_empty_loop example_grammar [''S''] {''S''}) \<and>
   queue_left (can_produce_empty_loop example_grammar [''S''] {''S''}) = [] \<and>
   [] \<notin> visited_set (can_produce_empty_loop example_grammar [''S''] {''S''})"
proof -
  let ?g = example_grammar
  let ?I = "\<lambda>(q::string list) (v::string set). \<forall>s\<in>set q \<union> v. s \<noteq> []"
  have ne: "\<And>s t. t \<in> set (fst (get_expansions ?g s)) \<Longrightarrow> t \<noteq> []"
    using leftmost_step_length[OF expansion_is_leftmost_step
        example_grammar_no_empty_production]
    by blast
  have step: "\<forall>current queue visited.
      ?I (current # queue) visited \<and> current \<noteq> [] \<longrightarrow>
      (if is_terminal_string ?g current then ?I queue visited
       else ?I (fst (enqueue_unvisited (\<lambda>exp. length exp < 20)
                     (fst (get_expansions ?g current)) (queue, visited)))
              (snd (enqueue_unvisited (\<lambda>exp. length exp < 20)
                     (fst (get_expansions ?g current)) (queue, visited))))"
    using ne by (auto simp: enqueue_unvisited_queue enqueue_unvisited_visited)
  have init: "?I [''S''] {''S''}" by simp
  note r = can_produce_empty_loop_rule[of ?I ?g ?g "[''S'']" "{''S''}",
      OF step same_grammar_refl init]
  from r have nf: "\<not> found (can_produce_empty_loop ?g [''S''] {''S''})"
    by (auto split: if_splits)
  with r have q: "queue_left (can_produce_empty_loop ?g [''S''] {''S''}) = []"
    and v: "[] \<notin> visited_set (can_produce_empty_loop ?g [''S''] {''S''})"
    by auto
  have "start_symbol ?g = Some ''S''" by (simp add: example_grammar_def)
  then have "map_sum id fst (belongs_to_grammar ?g []) = Inr False"
    using nf by (simp add: belongs_to_grammar_def can_produce_empty_def Let_def)
  with nf q v show ?thesis by simp
qed

text \<open>
  Claim C9. On the example grammar every word that \<^verbatim>\<open>generate_words\<close> returns, for
  any bounds, has as many \<open>a\<close> as \<open>b\<close>.
\<close>

theorem example_grammar_words_balanced:
  assumes "w \<in> set (fst (generate_words example_grammar max_length max_words))"
  shows "count_list w CHR ''a'' = count_list w CHR ''b''"
proof -
  let ?g = example_grammar
  let ?Q = "\<lambda>s. count_list s CHR ''a'' + count_list s CHR ''A'' =
                 count_list s CHR ''b'' + count_list s CHR ''B''"
  have st: "start_symbol ?g = Some ''S''" by (simp add: example_grammar_def)
  let ?W = "fst (generate_loop ?g max_length max_words [''S''] {''S''} {})"
  have ws: "fst (generate_words ?g max_length max_words) = sorted_list_of_set ?W"
    using st by (simp add: generate_words_def split_beta)
  have fin: "finite ?W"
  proof (cases "0 \<le> max_words")
    case True
    then show ?thesis
      using generate_loop_card[of "{}" max_words ?g max_length "[''S'']" "{''S''}"] by simp
  next
    case False
    then show ?thesis by (simp add: generate_loop.simps)
  qed
  have closed: "\<forall>s t. ?Q s \<longrightarrow> \<not> is_terminal_string ?g s \<longrightarrow> int (length s) \<le> max_length \<longrightarrow>
            t \<in> set (fst (get_expansions ?g s)) \<longrightarrow> ?Q t"
    using example_step_balance[OF expansion_is_leftmost_step] by blast
  have "?W \<subseteq> {} \<union> {s. ?Q s \<and> is_terminal_string ?g s \<and> int (length s) \<le> max_length \<and> s \<noteq> []}"
    using generate_loop_invariant[of ?Q ?g max_length ?g "[''S'']" max_words "{''S''}" "{}",
        OF closed same_grammar_refl]
    by simp
  moreover have "w \<in> ?W" using assms fin unfolding ws by simp
  ultimately have q: "?Q w" and t: "is_terminal_string ?g w" by auto
  from t have "set w \<subseteq> {CHR ''a'', CHR ''b''}"
    by (auto simp: is_terminal_string_iff example_grammar_def)
  then have "CHR ''A'' \<notin> set w" and "CHR ''B'' \<notin> set w" by auto
  then have "count_list w CHR ''A'' = 0" and "count_list w CHR ''B'' = 0"
    by (simp_all add: count_list_0_iff)
  with q show ?thesis by simp
qed

theorem example_grammar_words_balanced_witness:
  "''abba'' \<in> set (fst (generate_words example_grammar 4 10)) \<and>
   count_list ''abba'' CHR ''a'' = count_list ''abba'' CHR ''b''"
proof -
  have m: "''abba'' \<in> set (fst (generate_words example_grammar 4 10))"
    by code_simp
  from example_grammar_words_balanced[OF m] m show ?thesis by simp
qed

section \<open>Generation against membership\<close>

text \<open>
  Claim C1, as the code has it. In a grammar none of whose productions is empty, the
  membership query accepts every word that \<^verbatim>\<open>generate_words\<close> returns unless it
  stops at its cap: the answer is that of the membership loop, and the loop has found
  the word or has made all its 10000 passes. The query may be asked of the grammar
  before generation or as generation left it, or of any state \<open>g'\<close> that agrees with
  it.
\<close>

theorem generated_word_belongs_unless_capped:
  assumes "\<forall>key. [] \<notin> set (stored_productions g key)"
    and "w \<in> set (fst (generate_words g max_length max_words))"
    and "same_grammar g g'"
  shows "\<exists>start. start_symbol g' = Some start \<and>
           belongs_to_grammar g' w =
             Inr (found (bfs_loop g' w 10000 0 [start] {start}),
                  grammar_after (bfs_loop g' w 10000 0 [start] {start})) \<and>
           (found (bfs_loop g' w 10000 0 [start] {start}) \<or>
            iterations (bfs_loop g' w 10000 0 [start] {start}) = 10000)"
proof -
  from generated_word_reachable[OF assms(2)] obtain start where
    st: "start_symbol g = Some start" "start \<noteq> []" and rw: "search_reachable g w"
    and tw: "is_terminal_string g w" and nw: "w \<noteq> []"
    by blast
  have st': "start_symbol g' = Some start" using st(1) assms(3) by (simp add: same_grammar_def)
  have ne': "\<forall>key. [] \<notin> set (stored_productions g' key)"
    by (rule same_grammar_no_empty[OF assms(3) assms(1)])
  have rw': "search_reachable g' w"
    by (rule same_grammar_search_reachable[OF same_grammar_sym[OF assms(3)] rw])
  have "is_terminal_string g' w" using tw same_grammar_terminal[OF assms(3)] by simp
  then have "list_all (\<lambda>char. [char] \<in> terminals g') w"
    by (simp add: is_terminal_string_def)
  then have "belongs_to_grammar g' w =
             Inr (found (bfs_loop g' w 10000 0 [start] {start}),
                  grammar_after (bfs_loop g' w 10000 0 [start] {start}))"
    using nw st' st(2) by (simp add: belongs_to_grammar_def bfs_parse_def Let_def)
  with st' bfs_loop_complete[OF ne' st' rw', of 10000] show ?thesis by blast
qed

theorem generated_word_belongs_unless_capped_witness:
  "(\<forall>key. [] \<notin> set (stored_productions example_grammar key)) \<and>
   ''abba'' \<in> set (fst (generate_words example_grammar 4 10)) \<and>
   same_grammar example_grammar example_grammar \<and>
   iterations (bfs_loop example_grammar ''abba'' 10000 0 [''S''] {''S''}) \<noteq> 10000 \<and>
   map_sum id fst (belongs_to_grammar example_grammar ''abba'') = Inr True"
proof -
  have m: "''abba'' \<in> set (fst (generate_words example_grammar 4 10))"
    by code_simp
  have it: "iterations (bfs_loop example_grammar ''abba'' 10000 0 [''S''] {''S''}) \<noteq> 10000"
    by code_simp
  have st: "start_symbol example_grammar = Some ''S''"
    by (simp add: example_grammar_def)
  from generated_word_belongs_unless_capped[OF example_grammar_no_empty_production m
      same_grammar_refl] st it
  have "map_sum id fst (belongs_to_grammar example_grammar ''abba'') = Inr True"
    by auto
  with example_grammar_no_empty_production m it show ?thesis
    by (simp add: same_grammar_refl)
qed

text \<open>
  Claim C1 as stated fails when a production is empty: from \<^verbatim>\<open>S -> Ab\<close> and
  \<^verbatim>\<open>A ->\<close> generation returns \<^verbatim>\<open>b\<close>, reached through \<^verbatim>\<open>Ab\<close>, which the
  membership search for \<^verbatim>\<open>b\<close> drops as longer than its target.
\<close>

theorem generated_word_rejected_with_empty_production:
  "''b'' \<in> set (fst (generate_words empty_production_grammar 10 100)) \<and>
   map_sum id fst (belongs_to_grammar empty_production_grammar ''b'') = Inr False \<and>
   map_sum id fst
     (belongs_to_grammar (snd (generate_words empty_production_grammar 10 100)) ''b'') =
     Inr False"
  by code_simp

end
